theory Spec2Isabelle
  imports Complex_Main "HOL-Library.Monad_Syntax"
begin

section \<open>Text primitives\<close>

text \<open>
  The two scripts work on Python \<open>str\<close> values. A text is modelled as a \<open>string\<close>
  (a list of 8-bit characters): ASCII characters stand for themselves, and the one
  non-ASCII character the scripts name, the em-dash U+2014, is written as its three
  UTF-8 bytes. \<open>str.strip\<close>, \<open>str.lower\<close> and the regular-expression classes
  \<open>\s\<close> and \<open>\d\<close> are modelled on the ASCII range.
\<close>

definition is_space :: "char \<Rightarrow> bool" where
  \<comment> \<open>\<open>str.isspace\<close> on the ASCII range: space, TAB, LF, VT, FF, CR, FS, GS, RS, US.\<close>
  "is_space c = (c \<in> set [CHR '' '', CHR 0x09, CHR 0x0A, CHR 0x0B, CHR 0x0C, CHR 0x0D,
                             CHR 0x1C, CHR 0x1D, CHR 0x1E, CHR 0x1F])"

definition strip :: "string \<Rightarrow> string" where
  \<comment> \<open>\<open>s.strip()\<close>\<close>
  "strip s = rev (dropWhile is_space (rev (dropWhile is_space s)))"

definition lower_char :: "char \<Rightarrow> char" where
  "lower_char c =
     (case map_of (zip ''ABCDEFGHIJKLMNOPQRSTUVWXYZ'' ''abcdefghijklmnopqrstuvwxyz'') c of
        Some d \<Rightarrow> d
      | None \<Rightarrow> c)"

definition lower :: "string \<Rightarrow> string" where
  \<comment> \<open>\<open>s.lower()\<close>\<close>
  "lower s = map lower_char s"

definition startswith :: "string \<Rightarrow> string \<Rightarrow> bool" where
  \<comment> \<open>\<open>s.startswith(p)\<close>\<close>
  "startswith s p = (take (length p) s = p)"

fun split_on :: "(char \<Rightarrow> bool) \<Rightarrow> string \<Rightarrow> string list" where
  \<comment> \<open>\<open>s.split("|")\<close> and \<open>re.split(r"[/,]", s)\<close>: split at every delimiter character;
      the empty text gives one empty part.\<close>
  "split_on d [] = [[]]"
| "split_on d (c # cs) =
     (if d c then [] # split_on d cs
      else (case split_on d cs of
              [] \<Rightarrow> [[c]]
            | p # ps \<Rightarrow> (c # p) # ps))"

fun join :: "string \<Rightarrow> string list \<Rightarrow> string" where
  \<comment> \<open>\<open>sep.join(parts)\<close>\<close>
  "join sep [] = []"
| "join sep [p] = p"
| "join sep (p # q # ps) = p @ sep @ join sep (q # ps)"

definition em_dash :: string where
  \<comment> \<open>the character U+2014 in UTF-8\<close>
  "em_dash = [CHR 0xE2, CHR 0x80, CHR 0x94]"

section \<open>Row parser\<close>

definition parse_table_row :: "string \<Rightarrow> string list option" where
  "parse_table_row line0 =
     (let line = strip line0 in
      if \<not> startswith line ''|'' then None
      else
        let parts = split_on (\<lambda>c. c = CHR ''|'') line;
            parts1 = (if parts \<noteq> [] \<and> strip (hd parts) = [] then tl parts else parts);
            parts2 = (if parts1 \<noteq> [] \<and> strip (last parts1) = [] then butlast parts1
                      else parts1)
        in Some (map strip parts2))"

definition separator_cell :: "string \<Rightarrow> bool" where
  \<comment> \<open>\<open>re.match(r"^:?-+:?$", c)\<close>: an optional colon, one or more dashes, an optional
      colon, then the end of the text (\<open>$\<close> also matches before one final newline).\<close>
  "separator_cell c =
     (let c1 = (if startswith c '':'' then tl c else c);
          c2 = dropWhile (\<lambda>x. x = CHR ''-'') c1;
          c3 = (if startswith c2 '':'' then tl c2 else c2)
      in startswith c1 ''-'' \<and> (c3 = [] \<or> c3 = [CHR 0x0A]))"

definition is_separator_row :: "string list \<Rightarrow> bool" where
  "is_separator_row cells = list_all separator_cell cells"

section \<open>Column resolver\<close>

definition normalize_col_name :: "string \<Rightarrow> string" where
  "normalize_col_name name = lower (strip name)"

fun find_column_index :: "string list \<Rightarrow> string list \<Rightarrow> nat option" where
  \<comment> \<open>the index of the first header whose normalized name is a candidate\<close>
  "find_column_index [] candidates = None"
| "find_column_index (h # hs) candidates =
     (if normalize_col_name h \<in> set candidates then Some 0
      else map_option Suc (find_column_index hs candidates))"

section \<open>Value classifier and normalizer\<close>

definition RECOGNIZED_SEVERITIES :: "string list" where
  "RECOGNIZED_SEVERITIES =
     [''p0'', ''p1'', ''p2'', ''p3'',
      ''critical'', ''blocker'', ''blocking'',
      ''high'', ''medium'', ''low'',
      ''info'', ''informational'',
      ''non-blocking'', ''nonblocking'',
      ''note'', ''question'', ''gap'',
      ''n/a'', ''none'', em_dash]"

definition RECOGNIZED_DISPOSITIONS :: "string list" where
  "RECOGNIZED_DISPOSITIONS =
     [''incorporated'', ''incorporate'',
      ''not incorporated'',
      ''deferred'',
      ''already present'',
      ''acknowledged'',
      ''n/a'']"

definition DISPOSITION_PREFIXES :: "string list" where
  "DISPOSITION_PREFIXES = [''incorporated'', ''incorporate'', ''not incorporated'']"

definition SEVERITY_MAP :: "(string \<times> string) list" where
  "SEVERITY_MAP =
     [(''p0'', ''P0''), (''critical'', ''P0''), (''blocker'', ''P0''), (''blocking'', ''P0''),
      (''p1'', ''P1''), (''high'', ''P1''),
      (''p2'', ''P2''), (''medium'', ''P2''),
      (''p3'', ''P3''), (''low'', ''P3''),
      (''info'', ''Info''), (''informational'', ''Info''),
      (''non-blocking'', ''Info''), (''nonblocking'', ''Info''),
      (''note'', ''Info''), (''question'', ''Info''), (''gap'', ''Info''),
      (''n/a'', ''N/A''), (''none'', ''N/A''), (em_dash, ''N/A'')]"

definition slash_or_comma :: "char \<Rightarrow> bool" where
  \<comment> \<open>the character class \<open>[/,]\<close>\<close>
  "slash_or_comma c = (c = CHR ''/'' \<or> c = CHR '','')"

fun classify_severity_parts :: "string list \<Rightarrow> string \<Rightarrow> bool \<times> string" where
  \<comment> \<open>the loop over the parts of a compound value; \<open>v\<close> is returned when no part matches\<close>
  "classify_severity_parts [] v = (False, v)"
| "classify_severity_parts (p # ps) v =
     (let p' = strip p in
      if p' \<in> set RECOGNIZED_SEVERITIES then (True, p')
      else classify_severity_parts ps v)"

definition classify_severity :: "string \<Rightarrow> bool \<times> string" where
  "classify_severity val =
     (let v = lower (strip val) in
      if v \<in> set RECOGNIZED_SEVERITIES then (True, v)
      else classify_severity_parts (split_on slash_or_comma v) v)"

fun classify_disposition_prefixes :: "string list \<Rightarrow> string \<Rightarrow> bool \<times> string" where
  "classify_disposition_prefixes [] v = (False, v)"
| "classify_disposition_prefixes (prefix # ps) v =
     (if startswith v prefix then (True, prefix)
      else classify_disposition_prefixes ps v)"

definition classify_disposition :: "string \<Rightarrow> bool \<times> string" where
  "classify_disposition val =
     (let v = lower (strip val) in
      if v \<in> set RECOGNIZED_DISPOSITIONS then (True, v)
      else classify_disposition_prefixes DISPOSITION_PREFIXES v)"

fun normalize_severity_parts :: "string list \<Rightarrow> string \<Rightarrow> string \<Rightarrow> string" where
  \<comment> \<open>the loop over the parts, then the whole value, then the trimmed raw text\<close>
  "normalize_severity_parts [] v raw =
     (case map_of SEVERITY_MAP v of
        Some s \<Rightarrow> s
      | None \<Rightarrow> strip raw)"
| "normalize_severity_parts (p # ps) v raw =
     (case map_of SEVERITY_MAP (strip p) of
        Some s \<Rightarrow> s
      | None \<Rightarrow> normalize_severity_parts ps v raw)"

definition normalize_severity :: "string \<Rightarrow> string" where
  "normalize_severity raw =
     (let v = lower (strip raw) in
      normalize_severity_parts (split_on slash_or_comma v) v raw)"

definition normalize_disposition :: "string \<Rightarrow> string" where
  "normalize_disposition raw =
     (let v = lower (strip raw) in
      if v \<in> set [''incorporated'', ''incorporate''] \<or> startswith v ''incorporated''
        then ''Incorporated''
      else if v = ''not incorporated'' then ''Not Incorporated''
      else if v = ''deferred'' then ''Deferred''
      else if v \<in> set [''already present'', ''acknowledged''] then ''Incorporated''
      else if v = ''n/a'' then ''N/A''
      else strip raw)"

section \<open>Header matcher\<close>

definition is_digit :: "char \<Rightarrow> bool" where
  \<comment> \<open>the class \<open>\d\<close> on the ASCII range\<close>
  "is_digit c = (c \<in> set ''0123456789'')"

definition is_letter :: "char \<Rightarrow> bool" where
  \<comment> \<open>the class \<open>[a-z]\<close> under \<open>re.IGNORECASE\<close>\<close>
  "is_letter c = (lower_char c \<in> set ''abcdefghijklmnopqrstuvwxyz'')"

fun lit_ci :: "string \<Rightarrow> string \<Rightarrow> string option" where
  \<comment> \<open>a literal of the pattern (written in lower case) matched at the start of the text
      without regard to case; the result is the text after it\<close>
  "lit_ci [] s = Some s"
| "lit_ci (p # ps) [] = None"
| "lit_ci (p # ps) (c # cs) = (if lower_char c = p then lit_ci ps cs else None)"

definition spaces1 :: "string \<Rightarrow> string option" where
  \<comment> \<open>\<open>\s+\<close>; what follows it in the pattern never starts with a space, so only the
      longest run can lead to a match\<close>
  "spaces1 s = (if s \<noteq> [] \<and> is_space (hd s) then Some (dropWhile is_space s) else None)"

definition digits1 :: "string \<Rightarrow> (string \<times> string) option" where
  \<comment> \<open>\<open>(\d+)\<close>: the digits and the text after them; what follows it in the pattern never
      starts with a digit\<close>
  "digits1 s =
     (if s \<noteq> [] \<and> is_digit (hd s) then Some (takeWhile is_digit s, dropWhile is_digit s)
      else None)"

definition section_number :: "string \<Rightarrow> string option" where
  \<comment> \<open>\<open>\d+[a-z]?[.)]\s*\<close>\<close>
  "section_number s =
     do {
       (ds, r) \<leftarrow> digits1 s;
       let r1 = (if r \<noteq> [] \<and> is_letter (hd r) then tl r else r);
       if r1 \<noteq> [] \<and> (hd r1 = CHR ''.'' \<or> hd r1 = CHR '')'')
         then Some (dropWhile is_space (tl r1))
       else None
     }"

definition review_disposition_end :: "string \<Rightarrow> unit option" where
  \<comment> \<open>\<open>Review\s+Disposition\s*$\<close>\<close>
  "review_disposition_end s =
     do {
       r1 \<leftarrow> lit_ci ''review'' s;
       r2 \<leftarrow> spaces1 r1;
       r3 \<leftarrow> lit_ci ''disposition'' r2;
       if list_all is_space r3 then Some () else None
     }"

definition round_n_review_disposition :: "string \<Rightarrow> string option" where
  \<comment> \<open>\<open>Round\s+(\d+)\s+Review\s+Disposition\s*$\<close>, giving group 1\<close>
  "round_n_review_disposition s =
     do {
       r1 \<leftarrow> lit_ci ''round'' s;
       r2 \<leftarrow> spaces1 r1;
       (g1, r3) \<leftarrow> digits1 r2;
       r4 \<leftarrow> spaces1 r3;
       _ \<leftarrow> review_disposition_end r4;
       Some g1
     }"

definition r_n_review_disposition :: "string \<Rightarrow> string option" where
  \<comment> \<open>\<open>R(\d+)\s+Review\s+Disposition\s*$\<close>, giving group 2\<close>
  "r_n_review_disposition s =
     do {
       r1 \<leftarrow> lit_ci ''r'' s;
       (g2, r2) \<leftarrow> digits1 r1;
       r3 \<leftarrow> spaces1 r2;
       _ \<leftarrow> review_disposition_end r3;
       Some g2
     }"

type_synonym match = "string option \<times> string option"
  \<comment> \<open>a successful match: its groups 1 and 2\<close>

definition header_title :: "string \<Rightarrow> match option" where
  \<comment> \<open>the alternatives after the optional section number, tried in the pattern's order:
      with the optional \<open>Round N\<close>, without it, then \<open>RN\<close>\<close>
  "header_title s =
     (case round_n_review_disposition s of
        Some g1 \<Rightarrow> Some (Some g1, None)
      | None \<Rightarrow>
          (case review_disposition_end s of
             Some _ \<Rightarrow> Some (None, None)
           | None \<Rightarrow>
               (case r_n_review_disposition s of
                  Some g2 \<Rightarrow> Some (None, Some g2)
                | None \<Rightarrow> None)))"

definition DISPOSITION_HEADER_RE :: "string \<Rightarrow> match option" where
  \<comment> \<open>\<open>DISPOSITION_HEADER_RE.match(line)\<close>: \<open>##\<close>, spaces, the optional section number
      (tried with it first, then without), the title\<close>
  "DISPOSITION_HEADER_RE line =
     do {
       r0 \<leftarrow> lit_ci ''##'' line;
       r1 \<leftarrow> spaces1 r0;
       (case section_number r1 \<bind> header_title of
          Some m \<Rightarrow> Some m
        | None \<Rightarrow> header_title r1)
     }"

definition digit_value :: "char \<Rightarrow> int" where
  "digit_value c =
     (case map_of (zip ''0123456789'' [0, 1, 2, 3, 4, 5, 6, 7, 8, 9]) c of
        Some n \<Rightarrow> n
      | None \<Rightarrow> 0)"

definition int_of_digits :: "string \<Rightarrow> int" where
  \<comment> \<open>\<open>int(s)\<close> for a text of decimal digits\<close>
  "int_of_digits s = foldl (\<lambda>n c. 10 * n + digit_value c) 0 s"

definition extract_round_number :: "match \<Rightarrow> int option" where
  "extract_round_number m =
     (case m of
        (Some g1, _) \<Rightarrow>
          (if g1 \<noteq> [] then Some (int_of_digits g1)
           else (case snd m of
                   Some g2 \<Rightarrow> if g2 \<noteq> [] then Some (int_of_digits g2) else None
                 | None \<Rightarrow> None))
      | (None, Some g2) \<Rightarrow> if g2 \<noteq> [] then Some (int_of_digits g2) else None
      | (None, None) \<Rightarrow> None)"

section \<open>Table locator\<close>

record row =
  line :: nat
  cells :: "string list"

record table =
  round_num :: "int option"
  header_line :: nat
  section_header_line :: nat
  header_cells :: "string list"
  separator_line :: "nat option"
  rows :: "row list"
  col_count :: nat

function skip_blank :: "string list \<Rightarrow> nat \<Rightarrow> nat" where
  \<comment> \<open>\<open>while i < len(lines) and lines[i].strip() == "": i += 1\<close>\<close>
  "skip_blank lines i =
     (if i < length lines \<and> strip (lines ! i) = [] then skip_blank lines (i + 1) else i)"
  by pat_completeness auto
termination
  by (relation "measure (\<lambda>(lines, i). length lines - i)") auto

declare skip_blank.simps [simp del]

function data_rows :: "string list \<Rightarrow> nat \<Rightarrow> row list \<times> nat" where
  \<comment> \<open>the loop over the data rows from line \<open>i\<close>: the rows in order and the index of
      the line that ended the table\<close>
  "data_rows lines i =
     (if i < length lines then
        (case parse_table_row (lines ! i) of
           None \<Rightarrow> ([], i)
         | Some row_cells \<Rightarrow>
             if is_separator_row row_cells then data_rows lines (i + 1)
             else (case data_rows lines (i + 1) of
                     (rs, j) \<Rightarrow> (\<lparr>line = i, cells = row_cells\<rparr> # rs, j)))
      else ([], i))"
  by pat_completeness auto
termination
  by (relation "measure (\<lambda>(lines, i). length lines - i)") auto

declare data_rows.simps [simp del]

definition headerless :: "int option \<Rightarrow> nat \<Rightarrow> table" where
  \<comment> \<open>the record of a heading with no valid table after it\<close>
  "headerless rn section_start =
     \<lparr>round_num = rn, header_line = section_start, section_header_line = section_start,
      header_cells = [], separator_line = None, rows = [], col_count = 0\<rparr>"

definition try_table :: "string list \<Rightarrow> int option \<Rightarrow> nat \<Rightarrow> nat \<Rightarrow> nat + table \<times> nat" where
  \<comment> \<open>the attempt to read a table at line \<open>i\<close>, the first line that is not blank after
      the heading: \<open>Inr\<close> the table and the index the scan continues at, or \<open>Inl\<close> the
      value of \<open>i\<close> when the code falls through to the headerless record\<close>
  "try_table lines rn section_start i =
     (if i < length lines then
        (case parse_table_row (lines ! i) of
           None \<Rightarrow> Inl i
         | Some hc \<Rightarrow>
             if hc = [] then Inl i
             else if i + 1 < length lines then
               (case parse_table_row (lines ! (i + 1)) of
                  None \<Rightarrow> Inl (i + 1)
                | Some sep_cells \<Rightarrow>
                    if sep_cells \<noteq> [] \<and> is_separator_row sep_cells then
                      (case data_rows lines (i + 2) of
                         (rs, j) \<Rightarrow>
                           Inr (\<lparr>round_num = rn, header_line = i,
                                 section_header_line = section_start, header_cells = hc,
                                 separator_line = Some (i + 1), rows = rs,
                                 col_count = length hc\<rparr>, j))
                    else Inl (i + 1))
             else Inl (i + 1))
      else Inl i)"

function find_tables_from :: "string list \<Rightarrow> nat \<Rightarrow> table list" where
  \<comment> \<open>the outer loop of \<open>find_disposition_tables\<close>, from line \<open>i\<close>\<close>
  "find_tables_from lines i =
     (if i < length lines then
        (case DISPOSITION_HEADER_RE (lines ! i) of
           None \<Rightarrow> find_tables_from lines (i + 1)
         | Some m \<Rightarrow>
             (case try_table lines (extract_round_number m) i (skip_blank lines (i + 1)) of
                Inr (t, j) \<Rightarrow> t # find_tables_from lines j
              | Inl j \<Rightarrow> headerless (extract_round_number m) i # find_tables_from lines (j + 1)))
      else [])"
  by pat_completeness auto
termination
proof -
  have sb: "k \<le> skip_blank lines k" for lines k
    by (induction lines k rule: skip_blank.induct) (subst skip_blank.simps, auto)
  have dr: "k \<le> snd (data_rows lines k)" for lines k
    by (induction lines k rule: data_rows.induct)
       (subst data_rows.simps, fastforce split: option.splits prod.splits)
  have inr: "i < j" if "try_table lines rn s i = Inr (t, j)" for lines rn s i t j
    using that dr [of "i + 2" lines]
    by (auto simp: try_table_def split: if_splits option.splits prod.splits)
  have inl: "i \<le> j" if "try_table lines rn s i = Inl j" for lines rn s i j
    using that
    by (auto simp: try_table_def split: if_splits option.splits prod.splits)
  have stepl: "i < j + 1"
    if "try_table lines rn s (skip_blank lines (Suc i)) = Inl j" for lines rn s i j
    using inl [OF that] sb [of "Suc i" lines] by simp
  have stepr: "i < j"
    if "try_table lines rn s (skip_blank lines (Suc i)) = Inr (t, j)" for lines rn s i t j
    using inr [OF that] sb [of "Suc i" lines] by simp
  show ?thesis
  proof (relation "measure (\<lambda>(lines, i). length lines - i)", goal_cases)
    case 1
    show ?case by simp
  next
    case 2
    then show ?case by simp
  next
    case 3
    then show ?case by (auto dest: stepl stepr)
  next
    case 4
    then show ?case by (auto dest: stepl stepr)
  qed
qed

declare find_tables_from.simps [simp del]

definition find_disposition_tables :: "string list \<Rightarrow> table list" where
  "find_disposition_tables lines = find_tables_from lines 0"

section \<open>Validator\<close>

datatype round_label = Round int | Review_Disposition

definition round_label_of :: "table \<Rightarrow> round_label" where
  \<comment> \<open>\<open>f"Round {table['round']}" if table["round"] else "Review Disposition"\<close>: an absent
      round and round 0 are both falsy\<close>
  "round_label_of t =
     (case round_num t of
        None \<Rightarrow> Review_Disposition
      | Some r \<Rightarrow> if r \<noteq> 0 then Round r else Review_Disposition)"

text \<open>
  The validator's error messages are formatted texts; an error is modelled by its kind
  and the values the message interpolates: the round label, the 1-indexed line, and the
  header cells, the expected and the found cell count with the row's cells, or the
  offending raw value.
\<close>

datatype error =
    Missing_Severity round_label nat "string list"
  | Missing_Disposition round_label nat "string list"
  | Column_Count round_label nat nat nat "string list"
  | Unrecognized_Severity round_label nat string
  | Unrecognized_Disposition round_label nat string

definition validate_row :: "round_label \<Rightarrow> nat \<Rightarrow> nat \<Rightarrow> nat \<Rightarrow> row \<Rightarrow> error list option" where
  \<comment> \<open>the body of the loop over the rows: the errors it appends, or \<open>None\<close> when
      \<open>cells[sev_idx]\<close> or \<open>cells[disp_idx]\<close> raises IndexError\<close>
  "validate_row label expected_cols sev_idx disp_idx r =
     (let row_line = line r + 1; cs = cells r in
      if length cs \<noteq> expected_cols
        then Some [Column_Count label row_line expected_cols (length cs) cs]
      else if \<not> sev_idx < length cs then None
      else
        let sev_val = cs ! sev_idx;
            sev_errors = (if \<not> fst (classify_severity sev_val)
                          then [Unrecognized_Severity label row_line sev_val] else [])
        in if \<not> disp_idx < length cs then None
           else
             let disp_val = cs ! disp_idx;
                 disp_errors = (if \<not> fst (classify_disposition disp_val)
                                then [Unrecognized_Disposition label row_line disp_val] else [])
             in Some (sev_errors @ disp_errors))"

fun validate_rows :: "round_label \<Rightarrow> nat \<Rightarrow> nat \<Rightarrow> nat \<Rightarrow> row list \<Rightarrow> error list option" where
  "validate_rows label expected_cols sev_idx disp_idx [] = Some []"
| "validate_rows label expected_cols sev_idx disp_idx (r # rs) =
     (case validate_row label expected_cols sev_idx disp_idx r of
        None \<Rightarrow> None
      | Some es \<Rightarrow> map_option ((@) es) (validate_rows label expected_cols sev_idx disp_idx rs))"

definition validate_table :: "table \<Rightarrow> error list option" where
  "validate_table t =
     (let label = round_label_of t;
          line_prefix = section_header_line t + 1
      in if header_cells t = [] then Some []
         else
           let sev_idx = find_column_index (header_cells t) [''severity''];
               disp_idx = find_column_index (header_cells t) [''disposition''];
               errors =
                 (if sev_idx = None
                  then [Missing_Severity label line_prefix (header_cells t)] else []) @
                 (if disp_idx = None
                  then [Missing_Disposition label line_prefix (header_cells t)] else [])
           in (case (sev_idx, disp_idx) of
                 (Some s, Some d) \<Rightarrow> validate_rows label (col_count t) s d (rows t)
               | _ \<Rightarrow> Some errors))"

section \<open>Aggregator\<close>

record finding =
  file_path :: string
  round_number :: int
  finding_id :: string
  reviewer :: "string option"
  severity :: string
  severity_raw :: string
  summary :: string
  disposition :: string
  disposition_raw :: string
  notes_text :: string

record columns =
  sev_idx :: nat
  disp_idx :: nat
  summary_idx :: "nat option"
  reviewer_idx :: "nat option"
  notes_idx :: "nat option"
  finding_idx :: "nat option"

definition get_cell :: "string list \<Rightarrow> nat \<Rightarrow> string option" where
  \<comment> \<open>\<open>cells[i]\<close>; \<open>None\<close> is the IndexError\<close>
  "get_cell cs i = (if i < length cs then Some (cs ! i) else None)"

definition get_cell_or :: "string list \<Rightarrow> nat option \<Rightarrow> string \<Rightarrow> string option" where
  \<comment> \<open>\<open>cells[idx] if idx is not None else default\<close>\<close>
  "get_cell_or cs idx dflt = (case idx of None \<Rightarrow> Some dflt | Some i \<Rightarrow> get_cell cs i)"

definition row_finding :: "string \<Rightarrow> int \<Rightarrow> columns \<Rightarrow> row \<Rightarrow> finding option" where
  \<comment> \<open>the finding built from a row of the expected length\<close>
  "row_finding filepath rn cols r =
     do {
       let cs = cells r;
       raw_sev \<leftarrow> get_cell cs (sev_idx cols);
       raw_disp \<leftarrow> get_cell cs (disp_idx cols);
       fid \<leftarrow> get_cell_or cs (finding_idx cols) [];
       rvw \<leftarrow> (case reviewer_idx cols of
                 None \<Rightarrow> Some None
               | Some i \<Rightarrow> map_option Some (get_cell cs i));
       summ \<leftarrow> get_cell_or cs (summary_idx cols) [];
       nts \<leftarrow> get_cell_or cs (notes_idx cols) [];
       Some \<lparr>file_path = filepath, round_number = rn, finding_id = fid, reviewer = rvw,
             severity = normalize_severity raw_sev, severity_raw = strip raw_sev,
             summary = summ, disposition = normalize_disposition raw_disp,
             disposition_raw = strip raw_disp, notes_text = nts\<rparr>
     }"

fun rows_findings :: "string \<Rightarrow> int \<Rightarrow> nat \<Rightarrow> columns \<Rightarrow> row list \<Rightarrow> finding list option" where
  \<comment> \<open>the loop over the rows of one table\<close>
  "rows_findings filepath rn expected_cols cols [] = Some []"
| "rows_findings filepath rn expected_cols cols (r # rs) =
     (if length (cells r) \<noteq> expected_cols then rows_findings filepath rn expected_cols cols rs
      else (case row_finding filepath rn cols r of
              None \<Rightarrow> None
            | Some f \<Rightarrow> map_option ((#) f) (rows_findings filepath rn expected_cols cols rs)))"

definition table_columns :: "table \<Rightarrow> columns option" where
  \<comment> \<open>the column indices of a table; \<open>None\<close> when the severity or the disposition
      column is missing and the table is skipped\<close>
  "table_columns t =
     (let hs = header_cells t in
      case (find_column_index hs [''severity''], find_column_index hs [''disposition'']) of
        (Some s, Some d) \<Rightarrow>
          Some \<lparr>sev_idx = s, disp_idx = d,
                summary_idx = find_column_index hs [''summary'', ''description''],
                reviewer_idx = find_column_index hs [''reviewer''],
                notes_idx = find_column_index hs [''notes'', ''note'', ''comments'', ''comment''],
                finding_idx = find_column_index hs [''finding id'', ''finding'', ''#'', ''id'']\<rparr>
      | _ \<Rightarrow> None)"

definition table_findings :: "string \<Rightarrow> int \<Rightarrow> table \<Rightarrow> finding list option" where
  \<comment> \<open>the findings of one table with header cells, once its round number \<open>rn\<close> is set\<close>
  "table_findings filepath rn t =
     (case table_columns t of
        None \<Rightarrow> Some []
      | Some cols \<Rightarrow> rows_findings filepath rn (col_count t) cols (rows t))"

fun parse_tables :: "string \<Rightarrow> int \<Rightarrow> table list \<Rightarrow> finding list option" where
  \<comment> \<open>the loop over the tables of one file; the second argument is \<open>unlabeled_round\<close>,
      updated before the columns are looked up\<close>
  "parse_tables filepath unlabeled_round [] = Some []"
| "parse_tables filepath unlabeled_round (t # ts) =
     (if header_cells t = [] then parse_tables filepath unlabeled_round ts
      else
        let rn = (case round_num t of None \<Rightarrow> unlabeled_round | Some r \<Rightarrow> r);
            unlabeled_round' = max unlabeled_round (rn + 1)
        in (case table_findings filepath rn t of
              None \<Rightarrow> None
            | Some fs \<Rightarrow> map_option ((@) fs) (parse_tables filepath unlabeled_round' ts)))"

definition parse_file_findings :: "string \<Rightarrow> string list \<Rightarrow> finding list option" where
  \<comment> \<open>\<open>parse_file_findings\<close> on the lines of the file's text\<close>
  "parse_file_findings filepath lines = parse_tables filepath 1 (find_disposition_tables lines)"

subsection \<open>The running maximum of the round numbers\<close>

definition next_unlabeled_round :: "int \<Rightarrow> table \<Rightarrow> int" where
  \<comment> \<open>the value of \<open>unlabeled_round\<close> after the loop body has run on one table\<close>
  "next_unlabeled_round u t =
     (if header_cells t = [] then u
      else max u ((case round_num t of None \<Rightarrow> u | Some r \<Rightarrow> r) + 1))"

fun unlabeled_round_after :: "int \<Rightarrow> table list \<Rightarrow> int" where
  \<comment> \<open>the running maximum: the value of \<open>unlabeled_round\<close> after the loop has run on the
      tables \<open>ts\<close>, starting from \<open>u\<close>\<close>
  "unlabeled_round_after u [] = u"
| "unlabeled_round_after u (t # ts) = unlabeled_round_after (next_unlabeled_round u t) ts"

definition assigned_round :: "int \<Rightarrow> table list \<Rightarrow> table \<Rightarrow> int" where
  \<comment> \<open>the round number of a table that comes after the tables \<open>pre\<close> of its file: its
      label, or the running maximum when it has none\<close>
  "assigned_round u pre t =
     (case round_num t of None \<Rightarrow> unlabeled_round_after u pre | Some r \<Rightarrow> r)"

subsection \<open>Statistics\<close>

text \<open>
  A \<open>defaultdict\<close> is modelled as an association list in insertion order, with the
  default value given at each access.
\<close>

fun dd_update :: "'k \<Rightarrow> ('v \<Rightarrow> 'v) \<Rightarrow> 'v \<Rightarrow> ('k \<times> 'v) list \<Rightarrow> ('k \<times> 'v) list" where
  \<comment> \<open>\<open>d[k] = g(d[k])\<close> on a dictionary with default \<open>dflt\<close>\<close>
  "dd_update k g dflt [] = [(k, g dflt)]"
| "dd_update k g dflt ((k', v) # kvs) =
     (if k = k' then (k', g v) # kvs else (k', v) # dd_update k g dflt kvs)"

definition dd_get :: "('k \<times> 'v) list \<Rightarrow> 'k \<Rightarrow> 'v \<Rightarrow> 'v" where
  \<comment> \<open>\<open>d.get(k, dflt)\<close>, and \<open>d[k]\<close> read from a dictionary with default \<open>dflt\<close>\<close>
  "dd_get kvs k dflt = (case map_of kvs k of Some v \<Rightarrow> v | None \<Rightarrow> dflt)"

definition bump :: "'k \<Rightarrow> ('k \<times> int) list \<Rightarrow> ('k \<times> int) list" where
  \<comment> \<open>\<open>d[k] += 1\<close> on a \<open>defaultdict(int)\<close>\<close>
  "bump k kvs = dd_update k (\<lambda>n. n + 1) 0 kvs"

record round_stats =
  total_count :: int
  by_severity :: "(string \<times> int) list"
  by_disposition :: "(string \<times> int) list"
  files :: "(string \<times> int) list"

definition empty_stats :: round_stats where
  "empty_stats = \<lparr>total_count = 0, by_severity = [], by_disposition = [], files = []\<rparr>"

definition count_finding :: "finding \<Rightarrow> round_stats \<Rightarrow> round_stats" where
  \<comment> \<open>the four increments of \<open>per_round[rnd]\<close>\<close>
  "count_finding f st =
     \<lparr>total_count = total_count st + 1,
      by_severity = bump (severity f) (by_severity st),
      by_disposition = bump (disposition f) (by_disposition st),
      files = bump (file_path f) (files st)\<rparr>"

fun count_findings :: "finding list \<Rightarrow> (int \<times> round_stats) list \<Rightarrow> (int \<times> round_stats) list" where
  \<comment> \<open>the loop over the findings, with \<open>per_round\<close> as its state\<close>
  "count_findings [] per_round = per_round"
| "count_findings (f # fs) per_round =
     count_findings fs (dd_update (round_number f) (count_finding f) empty_stats per_round)"

datatype trend =
    No_Trend  \<comment> \<open>the em-dash\<close>
  | Down rat  \<comment> \<open>the down arrow with \<open>abs(pct_change)\<close>\<close>
  | Up rat    \<comment> \<open>the up arrow with \<open>pct_change\<close>\<close>

text \<open>
  The percentage is a Python float formatted with \<open>.0f\<close>; the model keeps the exact
  quotient as a rational number and leaves the rounding of the rendering out.
\<close>

definition compute_trend :: "int option \<Rightarrow> int \<Rightarrow> trend" where
  "compute_trend prev_total tot =
     (case prev_total of
        None \<Rightarrow> No_Trend
      | Some p \<Rightarrow>
          if p > 0 then
            (let pct_change = (of_int (tot - p) / of_int p) * 100 in
             if pct_change \<le> 0 then Down \<bar>pct_change\<bar> else Up pct_change)
          else No_Trend)"

record convergence_entry =
  entry_round :: int
  entry_total :: int
  incorporated :: int
  not_incorporated :: int
  deferred :: int
  na :: int
  trend :: trend

fun convergence_loop ::
  "(int \<times> round_stats) list \<Rightarrow> int list \<Rightarrow> int option \<Rightarrow> convergence_entry list" where
  \<comment> \<open>the loop over \<open>sorted_rounds\<close>, with \<open>prev_total\<close> as its state\<close>
  "convergence_loop per_round [] prev_total = []"
| "convergence_loop per_round (rnd # rnds) prev_total =
     (let stats = dd_get per_round rnd empty_stats;
          tot = total_count stats
      in \<lparr>entry_round = rnd, entry_total = tot,
           incorporated = dd_get (by_disposition stats) ''Incorporated'' 0,
           not_incorporated = dd_get (by_disposition stats) ''Not Incorporated'' 0,
           deferred = dd_get (by_disposition stats) ''Deferred'' 0,
           na = dd_get (by_disposition stats) ''N/A'' 0,
           trend = compute_trend prev_total tot\<rparr>
         # convergence_loop per_round rnds (Some tot))"

record aggregate_stats =
  per_round :: "(int \<times> round_stats) list"
  convergence :: "convergence_entry list"

definition aggregate_findings :: "finding list \<Rightarrow> aggregate_stats" where
  \<comment> \<open>the per-round statistics and the convergence table; the \<open>overall\<close> and \<open>per_file\<close>
      counters, which the convergence table does not read, are left out\<close>
  "aggregate_findings findings =
     (let per_round = count_findings findings [];
          sorted_rounds = sort (map fst per_round)
      in \<lparr>per_round = per_round,
           convergence = convergence_loop per_round sorted_rounds None\<rparr>)"

section \<open>Properties of the text primitives\<close>

lemma strip_subset: "set (strip s) \<subseteq> set s"
  unfolding strip_def by (auto dest!: set_dropWhileD)

lemma dropWhile_id_hd: "xs = [] \<or> \<not> P (hd xs) \<Longrightarrow> dropWhile P xs = xs"
  by (cases xs) auto

lemma strip_fixed:
  assumes "s = [] \<or> (\<not> is_space (hd s) \<and> \<not> is_space (last s))"
  shows "strip s = s"
proof -
  have 1: "dropWhile is_space s = s"
    using assms by (intro dropWhile_id_hd) auto
  have 2: "dropWhile is_space (rev s) = rev s"
    using assms by (intro dropWhile_id_hd) (auto simp: hd_rev)
  show ?thesis by (simp add: strip_def 1 2)
qed

lemma last_dropWhile: "dropWhile P xs \<noteq> [] \<Longrightarrow> last (dropWhile P xs) = last xs"
  by (induction xs) (auto split: if_splits)

lemma strip_ends: "strip s = [] \<or> (\<not> is_space (hd (strip s)) \<and> \<not> is_space (last (strip s)))"
proof (cases "strip s = []")
  case True
  then show ?thesis by simp
next
  case False
  let ?d = "dropWhile is_space s"
  let ?e = "dropWhile is_space (rev ?d)"
  from False have e: "?e \<noteq> []" by (simp add: strip_def)
  then have d: "?d \<noteq> []" by (cases "?d") simp_all
  have last_ok: "\<not> is_space (last (strip s))"
    using e hd_dropWhile [of is_space "rev ?d"] by (simp add: strip_def last_rev)
  have "hd (strip s) = last ?e" using e by (simp add: strip_def hd_rev)
  also have "\<dots> = last (rev ?d)" using e by (rule last_dropWhile)
  also have "\<dots> = hd ?d" using d by (simp add: last_rev)
  finally have "hd (strip s) = hd ?d" .
  moreover have "\<not> is_space (hd ?d)" using d by (rule hd_dropWhile)
  ultimately show ?thesis using last_ok by simp
qed

lemma strip_idem: "strip (strip s) = strip s"
  by (rule strip_fixed) (rule strip_ends)

lemma split_on_nonempty: "split_on d s \<noteq> []"
  by (induction s) (auto split: list.splits)

lemma split_on_parts_free: "p \<in> set (split_on d s) \<Longrightarrow> c \<in> set p \<Longrightarrow> \<not> d c"
proof (induction s arbitrary: p)
  case Nil
  then show ?case by simp
next
  case (Cons a s)
  show ?case
  proof (cases "d a")
    case True
    with Cons show ?thesis by auto
  next
    case False
    obtain q qs where q: "split_on d s = q # qs"
      using split_on_nonempty [of d s] by (cases "split_on d s") auto
    with False Cons.prems have "p = a # q \<or> p \<in> set qs" by auto
    then show ?thesis
    proof
      assume "p = a # q"
      with Cons.prems False Cons.IH [of q] q show ?thesis by auto
    next
      assume "p \<in> set qs"
      with Cons.IH [of p] Cons.prems q show ?thesis by auto
    qed
  qed
qed

lemma split_on_free_prefix:
  "\<forall>c \<in> set p. \<not> d c \<Longrightarrow> d x \<Longrightarrow> split_on d (p @ x # s) = p # split_on d s"
  by (induction p) auto

lemma split_on_join:
  "cs \<noteq> [] \<Longrightarrow> \<forall>p \<in> set cs. \<forall>c \<in> set p. \<not> d c \<Longrightarrow> d x \<Longrightarrow>
   split_on d (join [x] cs @ [x]) = cs @ [[]]"
proof (induction cs)
  case Nil
  then show ?case by simp
next
  case (Cons p ps)
  have p: "\<forall>c \<in> set p. \<not> d c" using Cons.prems by simp
  show ?case
  proof (cases ps)
    case Nil
    then show ?thesis using split_on_free_prefix [OF p \<open>d x\<close>, of "[]"] by simp
  next
    case (Cons q qs)
    then have "split_on d (join [x] ps @ [x]) = ps @ [[]]"
      using Cons.IH Cons.prems by simp
    then show ?thesis
      using Cons split_on_free_prefix [OF p \<open>d x\<close>, of "join [x] ps @ [x]"] by simp
  qed
qed

lemmas ev_defs = lower_def strip_def is_space_def lower_char_def startswith_def
  slash_or_comma_def SEVERITY_MAP_def em_dash_def RECOGNIZED_SEVERITIES_def
  RECOGNIZED_DISPOSITIONS_def DISPOSITION_PREFIXES_def

section \<open>Claims about the row parser and the value classifier\<close>

text \<open>
  Claim C9. Severity and disposition normalization leave every canonical label
  unchanged: the severity labels P0, P1, P2, P3, Info and N/A, and the disposition
  labels Incorporated, Not Incorporated, Deferred and N/A.
\<close>

theorem normalize_canonical_idempotent:
  "normalize_severity ''P0'' = ''P0'' \<and>
   normalize_severity ''P1'' = ''P1'' \<and>
   normalize_severity ''P2'' = ''P2'' \<and>
   normalize_severity ''P3'' = ''P3'' \<and>
   normalize_severity ''Info'' = ''Info'' \<and>
   normalize_severity ''N/A'' = ''N/A'' \<and>
   normalize_disposition ''Incorporated'' = ''Incorporated'' \<and>
   normalize_disposition ''Not Incorporated'' = ''Not Incorporated'' \<and>
   normalize_disposition ''Deferred'' = ''Deferred'' \<and>
   normalize_disposition ''N/A'' = ''N/A''"
  by (simp add: normalize_severity_def normalize_disposition_def ev_defs)

text \<open>
  Claim C7, as amended. After trimming and lowercasing, \<open>classify_severity\<close> accepts a
  value that is verbatim in the recognized set; otherwise it splits the value at every
  \<open>/\<close> and \<open>,\<close>, trims each part, and accepts the first trimmed part that is in the
  set; a value with no such part is rejected and returned as it was after trimming and
  lowercasing. \<open>P0/Blocker\<close> classifies as valid with part \<open>p0\<close> and normalizes to
  \<open>P0\<close>.
\<close>

theorem classify_severity_accepts:
  "classify_severity val =
     (let v = lower (strip val);
          parts = map strip (split_on (\<lambda>c. c = CHR ''/'' \<or> c = CHR '','') v)
      in if v \<in> set RECOGNIZED_SEVERITIES then (True, v)
         else (case find (\<lambda>p. p \<in> set RECOGNIZED_SEVERITIES) parts of
                 Some p \<Rightarrow> (True, p)
               | None \<Rightarrow> (False, v)))
   \<and> set RECOGNIZED_SEVERITIES =
       {''p0'', ''p1'', ''p2'', ''p3'', ''critical'', ''blocker'', ''blocking'', ''high'',
        ''medium'', ''low'', ''info'', ''informational'', ''non-blocking'', ''nonblocking'',
        ''note'', ''question'', ''gap'', ''n/a'', ''none'', em_dash}
   \<and> classify_severity ''P0/Blocker'' = (True, ''p0'')
   \<and> normalize_severity ''P0/Blocker'' = ''P0''"
proof -
  have parts: "classify_severity_parts ps v =
      (case find (\<lambda>p. p \<in> set RECOGNIZED_SEVERITIES) (map strip ps) of
         Some p \<Rightarrow> (True, p)
       | None \<Rightarrow> (False, v))" for ps v
    by (induction ps) (simp_all add: Let_def)
  have fn: "(\<lambda>c. c = CHR ''/'' \<or> c = CHR '','') = slash_or_comma"
    by (simp add: fun_eq_iff slash_or_comma_def)
  have 1: "classify_severity val =
     (let v = lower (strip val);
          parts = map strip (split_on (\<lambda>c. c = CHR ''/'' \<or> c = CHR '','') v)
      in if v \<in> set RECOGNIZED_SEVERITIES then (True, v)
         else (case find (\<lambda>p. p \<in> set RECOGNIZED_SEVERITIES) parts of
                 Some p \<Rightarrow> (True, p)
               | None \<Rightarrow> (False, v)))"
    unfolding fn by (simp add: classify_severity_def parts Let_def)
  have 2: "set RECOGNIZED_SEVERITIES =
       {''p0'', ''p1'', ''p2'', ''p3'', ''critical'', ''blocker'', ''blocking'', ''high'',
        ''medium'', ''low'', ''info'', ''informational'', ''non-blocking'', ''nonblocking'',
        ''note'', ''question'', ''gap'', ''n/a'', ''none'', em_dash}"
    unfolding RECOGNIZED_SEVERITIES_def by (simp only: list.set)
  have 3: "classify_severity ''P0/Blocker'' = (True, ''p0'')"
    by (simp add: classify_severity_def ev_defs)
  have 4: "normalize_severity ''P0/Blocker'' = ''P0''"
    by (simp add: normalize_severity_def ev_defs)
  from 1 2 3 4 show ?thesis by (intro conjI)
qed

text \<open>
  Claim C7 as stated tests the parts themselves against the recognized set, the first
  part in the set winning. The code trims each part first: of \<open>P1 /P0\<close> the part
  \<open>p1\<close> followed by a space is not in the set and \<open>p0\<close> is, yet the value
  classifies as \<open>p1\<close>.
\<close>

theorem classify_severity_untrimmed_counterexample:
  "lower (strip ''P1 /P0'') = ''p1 /p0'' \<and>
   ''p1 /p0'' \<notin> set RECOGNIZED_SEVERITIES \<and>
   split_on slash_or_comma ''p1 /p0'' = [''p1 '', ''p0''] \<and>
   ''p1 '' \<notin> set RECOGNIZED_SEVERITIES \<and>
   ''p0'' \<in> set RECOGNIZED_SEVERITIES \<and>
   classify_severity ''P1 /P0'' = (True, ''p1'')"
  by (simp add: classify_severity_def ev_defs)

text \<open>
  Claim C2 at the input \<open>Not Incorporated (duplicate)\<close>: the classifier accepts the
  value by its prefix \<open>not incorporated\<close>, but \<open>normalize_disposition\<close> compares with
  \<open>not incorporated\<close> for equality only and returns the raw text, where the claim
  says Not Incorporated. The prefix \<open>incorporated\<close> is normalized, as in
  \<open>Incorporated (Option B)\<close>.
\<close>

theorem normalize_disposition_misses_prefix:
  "classify_disposition ''Not Incorporated (duplicate)'' = (True, ''not incorporated'') \<and>
   normalize_disposition ''Not Incorporated (duplicate)'' = ''Not Incorporated (duplicate)'' \<and>
   normalize_disposition ''Incorporated (Option B)'' = ''Incorporated''"
  by (simp add: classify_disposition_def normalize_disposition_def ev_defs)

text \<open>
  Claim C4 as stated fails at the line \<open>|\<close>: the row parser accepts it with no cells,
  and the rejoined line \<open>||\<close> parses to one empty cell.
\<close>

theorem parse_table_row_roundtrip_counterexample:
  "parse_table_row ''|'' = Some [] \<and>
   parse_table_row (''|'' @ join ''|'' [] @ ''|'') \<noteq> Some []"
  by (simp add: parse_table_row_def ev_defs)

text \<open>
  Claim C4, as amended. For every line the row parser accepts with at least one cell,
  joining the returned cells with the pipe delimiter, adding outer pipes and parsing
  the result again gives the same cell list.
\<close>

theorem parse_table_row_roundtrip:
  assumes "parse_table_row l = Some cs" and "cs \<noteq> []"
  shows "parse_table_row (''|'' @ join ''|'' cs @ ''|'') = Some cs"
proof -
  let ?bar = "\<lambda>c. c = CHR ''|''"
  have nsp: "\<not> is_space CHR ''|''" by (simp add: is_space_def)
  from assms(1) have sw: "startswith (strip l) ''|''"
    by (auto simp: parse_table_row_def Let_def split: if_splits)
  then obtain rest where rest: "strip l = CHR ''|'' # rest"
    by (cases "strip l") (auto simp: startswith_def)
  define ps where "ps = split_on ?bar rest"
  define parts2 where "parts2 = (if strip (last ps) = [] then butlast ps else ps)"
  have ps_ne: "ps \<noteq> []" by (simp add: ps_def split_on_nonempty)
  have strip_nil: "strip [] = []" by (simp add: strip_def)
  from assms(1) have cs: "cs = map strip parts2"
    using ps_ne
    by (simp add: parse_table_row_def Let_def rest startswith_def ps_def [symmetric]
        parts2_def strip_nil split: if_splits)
  have sub: "set parts2 \<subseteq> set ps"
    by (auto simp: parts2_def dest: in_set_butlastD)
  have free: "\<forall>p \<in> set cs. \<forall>c \<in> set p. \<not> ?bar c"
  proof (intro ballI)
    fix p c assume "p \<in> set cs" and c: "c \<in> set p"
    then obtain q where q: "q \<in> set parts2" and p: "p = strip q"
      by (auto simp: cs)
    from c p strip_subset [of q] have "c \<in> set q" by auto
    moreover from q sub have "q \<in> set (split_on ?bar rest)" by (auto simp: ps_def)
    ultimately show "\<not> ?bar c" by (rule split_on_parts_free [rotated])
  qed
  have fixed: "map strip cs = cs"
    by (simp add: cs strip_idem)
  let ?A = "''|'' @ join ''|'' cs @ ''|''"
  have A: "strip ?A = ?A"
    by (rule strip_fixed) (simp add: nsp)
  have split: "split_on ?bar ?A = [] # cs @ [[]]"
    using split_on_join [OF assms(2) free, of "CHR ''|''"] by simp
  show ?thesis
    by (simp add: parse_table_row_def Let_def A [simplified] split [simplified]
        startswith_def strip_nil fixed)
qed

theorem parse_table_row_roundtrip_witness:
  "parse_table_row '' | F1 | P0 |  Incorporated (Option B) | '' =
     Some [''F1'', ''P0'', ''Incorporated (Option B)''] \<and>
   parse_table_row (''|'' @ join ''|'' [''F1'', ''P0'', ''Incorporated (Option B)''] @ ''|'') =
     Some [''F1'', ''P0'', ''Incorporated (Option B)'']"
proof -
  have h: "parse_table_row '' | F1 | P0 |  Incorporated (Option B) | '' =
     Some [''F1'', ''P0'', ''Incorporated (Option B)'']"
    by (simp add: parse_table_row_def ev_defs)
  from parse_table_row_roundtrip [OF h] h show ?thesis by simp
qed

section \<open>Properties of the table locator\<close>

lemmas re_defs = DISPOSITION_HEADER_RE_def header_title_def r_n_review_disposition_def
  round_n_review_disposition_def review_disposition_end_def section_number_def digits1_def
  spaces1_def is_letter_def is_digit_def extract_round_number_def int_of_digits_def
  digit_value_def

lemmas loc_defs = find_disposition_tables_def find_tables_from.simps try_table_def
  data_rows.simps skip_blank.simps headerless_def is_separator_row_def separator_cell_def
  parse_table_row_def

lemmas agg_defs = aggregate_findings_def count_finding_def empty_stats_def bump_def dd_get_def
  compute_trend_def

lemma skip_blank_ge: "i \<le> skip_blank lines i"
  by (induction lines i rule: skip_blank.induct) (subst skip_blank.simps, auto)

lemma data_rows_ge: "i \<le> snd (data_rows lines i)"
  by (induction lines i rule: data_rows.induct)
     (subst data_rows.simps, fastforce split: option.splits prod.splits)

lemma try_table_Inr:
  assumes "try_table lines rn s i = Inr (t, j)"
  shows "header_cells t \<noteq> []" and "section_header_line t = s" and "round_num t = rn"
    and "col_count t = length (header_cells t)" and "i < j"
  using assms data_rows_ge [of "i + 2" lines]
  by (auto simp: try_table_def split: if_splits option.splits prod.splits)

lemma try_table_Inl: "try_table lines rn s i = Inl j \<Longrightarrow> i \<le> j"
  by (auto simp: try_table_def split: if_splits option.splits prod.splits)

lemma find_tables_from_props:
  "t \<in> set (find_tables_from lines k) \<Longrightarrow>
     k \<le> section_header_line t \<and>
     col_count t = length (header_cells t) \<and>
     (header_cells t = [] \<longrightarrow> rows t = [] \<and> separator_line t = None)"
proof (induction lines k rule: find_tables_from.induct)
  case (1 lines i)
  show ?case
  proof (cases "i < length lines")
    case False
    with "1.prems" show ?thesis by (subst (asm) find_tables_from.simps) simp
  next
    case lt: True
    show ?thesis
    proof (cases "DISPOSITION_HEADER_RE (lines ! i)")
      case None
      with lt "1.prems" have "t \<in> set (find_tables_from lines (i + 1))"
        by (subst (asm) find_tables_from.simps) simp
      from "1.IH"(1) [OF lt None this] show ?thesis by simp
    next
      case (Some m)
      let ?j = "skip_blank lines (i + 1)"
      have ij: "i < ?j" using skip_blank_ge [of "i + 1" lines] by simp
      show ?thesis
      proof (cases "try_table lines (extract_round_number m) i ?j")
        case (Inl j)
        with lt Some "1.prems"
        have "t = headerless (extract_round_number m) i \<or> t \<in> set (find_tables_from lines (j + 1))"
          by (subst (asm) find_tables_from.simps) simp
        then show ?thesis
        proof
          assume "t = headerless (extract_round_number m) i"
          then show ?thesis by (simp add: headerless_def)
        next
          assume "t \<in> set (find_tables_from lines (j + 1))"
          from "1.IH"(2) [OF lt Some Inl this] try_table_Inl [OF Inl] ij
          show ?thesis by simp
        qed
      next
        case (Inr p)
        obtain t' j where p: "p = (t', j)" by (cases p)
        with lt Some "1.prems" Inr
        have "t = t' \<or> t \<in> set (find_tables_from lines j)"
          by (subst (asm) find_tables_from.simps) simp
        then show ?thesis
        proof
          assume "t = t'"
          with try_table_Inr [OF Inr [unfolded p]] show ?thesis by simp
        next
          assume "t \<in> set (find_tables_from lines j)"
          from "1.IH"(3) [OF lt Some Inr p [symmetric] this]
            try_table_Inr(5) [OF Inr [unfolded p]] ij
          show ?thesis by simp
        qed
      qed
    qed
  qed
qed

lemma parse_tables_skip_headerless:
  "header_cells t = [] \<Longrightarrow>
   parse_tables filepath u (pre @ t # post) = parse_tables filepath u (pre @ post)"
  by (induction pre arbitrary: u) (simp_all add: Let_def split: option.splits)






section \<open>Properties of the validator and the aggregator\<close>






lemma find_column_index_lt: "find_column_index hs c = Some i \<Longrightarrow> i < length hs"
  by (induction hs arbitrary: i) (auto split: if_splits)

lemma validate_rows_total:
  "s < e \<Longrightarrow> d < e \<Longrightarrow> \<exists>es. validate_rows l e s d rs = Some es"
  by (induction rs) (auto simp: validate_row_def Let_def)

lemma validate_table_total:
  assumes "col_count t = length (header_cells t)"
  shows "\<exists>es. validate_table t = Some es"
proof (cases "find_column_index (header_cells t) [''severity'']")
  case None
  then show ?thesis by (simp add: validate_table_def Let_def)
next
  case s: (Some s)
  show ?thesis
  proof (cases "find_column_index (header_cells t) [''disposition'']")
    case None
    with s show ?thesis by (simp add: validate_table_def Let_def)
  next
    case d: (Some d)
    from validate_rows_total [of s "col_count t" d "round_label_of t" "rows t"]
      find_column_index_lt [OF s] find_column_index_lt [OF d] assms s d
    show ?thesis by (auto simp: validate_table_def Let_def)
  qed
qed

lemma locator_tables_validate:
  assumes "t \<in> set (find_disposition_tables lines)"
  shows "\<exists>es. validate_table t = Some es"
  using assms find_tables_from_props [of t lines 0]
  by (intro validate_table_total) (simp add: find_disposition_tables_def)

lemma row_finding_total:
  assumes "sev_idx cols < length (cells r)" and "disp_idx cols < length (cells r)"
    and "\<forall>i. summary_idx cols = Some i \<longrightarrow> i < length (cells r)"
    and "\<forall>i. reviewer_idx cols = Some i \<longrightarrow> i < length (cells r)"
    and "\<forall>i. notes_idx cols = Some i \<longrightarrow> i < length (cells r)"
    and "\<forall>i. finding_idx cols = Some i \<longrightarrow> i < length (cells r)"
  shows "\<exists>f. row_finding fp rn cols r = Some f"
  using assms
  by (auto simp: row_finding_def get_cell_def get_cell_or_def Let_def split: option.splits)

lemma rows_findings_total:
  assumes "sev_idx cols < e" and "disp_idx cols < e"
    and "\<forall>i. summary_idx cols = Some i \<longrightarrow> i < e"
    and "\<forall>i. reviewer_idx cols = Some i \<longrightarrow> i < e"
    and "\<forall>i. notes_idx cols = Some i \<longrightarrow> i < e"
    and "\<forall>i. finding_idx cols = Some i \<longrightarrow> i < e"
  shows "\<exists>fs. rows_findings fp rn e cols rs = Some fs"
proof (induction rs)
  case Nil
  show ?case by simp
next
  case (Cons r rs)
  then obtain fs where fs: "rows_findings fp rn e cols rs = Some fs" by blast
  show ?case
  proof (cases "length (cells r) = e")
    case False
    with fs show ?thesis by simp
  next
    case True
    with assms row_finding_total [of cols r fp rn]
    obtain f where "row_finding fp rn cols r = Some f" by auto
    with True fs show ?thesis by simp
  qed
qed

lemma table_findings_total:
  assumes "col_count t = length (header_cells t)"
  shows "\<exists>fs. table_findings fp rn t = Some fs"
proof (cases "table_columns t")
  case None
  then show ?thesis by (simp add: table_findings_def)
next
  case (Some cols)
  then have "sev_idx cols < col_count t" "disp_idx cols < col_count t"
    "\<forall>i. summary_idx cols = Some i \<longrightarrow> i < col_count t"
    "\<forall>i. reviewer_idx cols = Some i \<longrightarrow> i < col_count t"
    "\<forall>i. notes_idx cols = Some i \<longrightarrow> i < col_count t"
    "\<forall>i. finding_idx cols = Some i \<longrightarrow> i < col_count t"
    using assms
    by (auto simp: table_columns_def Let_def split: option.splits dest: find_column_index_lt)
  from rows_findings_total [OF this] Some show ?thesis
    by (simp add: table_findings_def)
qed

lemma parse_tables_total:
  "\<forall>t \<in> set ts. col_count t = length (header_cells t) \<Longrightarrow>
   \<exists>fs. parse_tables fp u ts = Some fs"
proof (induction ts arbitrary: u)
  case Nil
  show ?case by simp
next
  case (Cons t ts)
  let ?rn = "case round_num t of None \<Rightarrow> u | Some r \<Rightarrow> r"
  from Cons.prems table_findings_total [of t fp ?rn]
  obtain f1 where f1: "table_findings fp ?rn t = Some f1" by auto
  from Cons.IH Cons.prems have "\<exists>fs. parse_tables fp v ts = Some fs" for v by simp
  with f1 show ?case by (simp add: Let_def)
qed

lemma parse_file_findings_total: "\<exists>fs. parse_file_findings fp lines = Some fs"
  unfolding parse_file_findings_def
  using find_tables_from_props [of _ lines 0]
  by (intro parse_tables_total) (simp add: find_disposition_tables_def)

lemma unlabeled_round_after_append:
  "unlabeled_round_after u (xs @ ys) = unlabeled_round_after (unlabeled_round_after u xs) ys"
  by (induction xs arbitrary: u) simp_all

lemma next_unlabeled_round_ge: "u \<le> next_unlabeled_round u t"
  by (simp add: next_unlabeled_round_def)

lemma unlabeled_round_after_ge: "u \<le> unlabeled_round_after u ts"
proof (induction ts arbitrary: u)
  case Nil
  show ?case by simp
next
  case (Cons t ts)
  from next_unlabeled_round_ge [of u t] Cons [of "next_unlabeled_round u t"]
  show ?case by simp
qed

lemma parse_tables_append:
  "parse_tables fp u (xs @ ys) =
     (case parse_tables fp u xs of
        None \<Rightarrow> None
      | Some f1 \<Rightarrow> map_option ((@) f1) (parse_tables fp (unlabeled_round_after u xs) ys))"
proof (induction xs arbitrary: u)
  case Nil
  show ?case by (cases "parse_tables fp u ys") simp_all
next
  case (Cons t xs)
  show ?case
  proof (cases "header_cells t = []")
    case True
    then show ?thesis by (simp add: Cons next_unlabeled_round_def split: option.splits)
  next
    case False
    let ?rn = "case round_num t of None \<Rightarrow> u | Some r \<Rightarrow> r"
    let ?u' = "max u (?rn + 1)"
    have nu: "next_unlabeled_round u t = ?u'"
      using False by (simp add: next_unlabeled_round_def)
    show ?thesis
    proof (cases "table_findings fp ?rn t")
      case None
      with False show ?thesis by (simp add: Let_def)
    next
      case (Some fs)
      show ?thesis
      proof (cases "parse_tables fp ?u' xs")
        case None
        with False Some show ?thesis by (simp add: Let_def Cons [of ?u'])
      next
        case f1: (Some f1)
        with False Some show ?thesis
          by (cases "parse_tables fp (unlabeled_round_after ?u' xs) ys")
             (simp_all add: Let_def Cons [of ?u'] nu)
      qed
    qed
  qed
qed

lemma rows_findings_round:
  "rows_findings fp rn e cols rs = Some fs \<Longrightarrow> f \<in> set fs \<Longrightarrow> round_number f = rn"
proof (induction rs arbitrary: fs)
  case Nil
  then show ?case by simp
next
  case (Cons r rs)
  show ?case
  proof (cases "length (cells r) \<noteq> e")
    case True
    with Cons show ?thesis by simp
  next
    case False
    with Cons.prems(1) obtain g gs where g: "row_finding fp rn cols r = Some g"
      and gs: "rows_findings fp rn e cols rs = Some gs" and fs: "fs = g # gs"
      by (auto split: option.splits)
    from g have "round_number g = rn"
      by (auto simp: row_finding_def Let_def split: bind_splits)
    with Cons.IH [OF gs] Cons.prems(2) fs show ?thesis by auto
  qed
qed

lemma table_findings_round:
  "table_findings fp rn t = Some fs \<Longrightarrow> f \<in> set fs \<Longrightarrow> round_number f = rn"
  by (auto simp: table_findings_def split: option.splits dest: rows_findings_round)

lemma assigned_round_less:
  assumes "pre = p1 @ t' # p2" and "header_cells t' \<noteq> []"
  shows "assigned_round u p1 t' < unlabeled_round_after u pre"
proof -
  let ?v = "unlabeled_round_after u p1"
  have "assigned_round u p1 t' < next_unlabeled_round ?v t'"
    using assms(2) by (simp add: assigned_round_def next_unlabeled_round_def split: option.splits)
  also have "\<dots> \<le> unlabeled_round_after (next_unlabeled_round ?v t') p2"
    by (rule unlabeled_round_after_ge)
  also have "\<dots> = unlabeled_round_after u pre"
    by (simp add: assms(1) unlabeled_round_after_append)
  finally show ?thesis .
qed

lemma unlabeled_round_after_attained:
  "unlabeled_round_after u pre = u \<or>
   (\<exists>p1 t' p2. pre = p1 @ t' # p2 \<and> header_cells t' \<noteq> [] \<and>
                unlabeled_round_after u pre = assigned_round u p1 t' + 1)"
proof (induction pre rule: rev_induct)
  case Nil
  show ?case by simp
next
  case (snoc t pre)
  let ?v = "unlabeled_round_after u pre"
  have step: "unlabeled_round_after u (pre @ [t]) = next_unlabeled_round ?v t"
    by (simp add: unlabeled_round_after_append)
  show ?case
  proof (cases "next_unlabeled_round ?v t = ?v")
    case True
    from snoc show ?thesis
    proof
      assume "?v = u"
      with step True show ?thesis by simp
    next
      assume "\<exists>p1 t' p2. pre = p1 @ t' # p2 \<and> header_cells t' \<noteq> [] \<and>
                ?v = assigned_round u p1 t' + 1"
      then obtain p1 t' p2 where "pre = p1 @ t' # p2" "header_cells t' \<noteq> []"
        "?v = assigned_round u p1 t' + 1" by blast
      then have "pre @ [t] = p1 @ t' # (p2 @ [t]) \<and> header_cells t' \<noteq> [] \<and>
        unlabeled_round_after u (pre @ [t]) = assigned_round u p1 t' + 1"
        using step True by simp
      then show ?thesis by blast
    qed
  next
    case False
    then have "header_cells t \<noteq> []"
      and "next_unlabeled_round ?v t = assigned_round u pre t + 1"
      by (auto simp: next_unlabeled_round_def assigned_round_def max_def
          split: if_splits option.splits)
    with step have "pre @ [t] = pre @ t # [] \<and> header_cells t \<noteq> [] \<and>
        unlabeled_round_after u (pre @ [t]) = assigned_round u pre t + 1"
      by simp
    then show ?thesis by blast
  qed
qed

lemma dd_update_keys: "fst ` set (dd_update k g d kvs) = insert k (fst ` set kvs)"
proof (induction kvs)
  case Nil
  show ?case by simp
next
  case (Cons kv kvs)
  obtain k' v where kv: "kv = (k', v)" by (cases kv)
  show ?case
    by (cases "k = k'") (simp_all add: kv Cons insert_commute)
qed

lemma dd_update_distinct:
  "distinct (map fst kvs) \<Longrightarrow> distinct (map fst (dd_update k g d kvs))"
proof (induction kvs)
  case Nil
  show ?case by simp
next
  case (Cons kv kvs)
  obtain k' v where kv: "kv = (k', v)" by (cases kv)
  from Cons show ?case
    by (cases "k = k'") (simp_all add: kv dd_update_keys)
qed

lemma dd_get_update:
  "dd_get (dd_update k g d kvs) k' d = (if k' = k then g (dd_get kvs k d) else dd_get kvs k' d)"
  by (induction kvs) (auto simp: dd_get_def)

lemma count_findings_keys:
  "fst ` set (count_findings fs pr) = fst ` set pr \<union> round_number ` set fs"
  by (induction fs arbitrary: pr) (simp_all add: dd_update_keys)

lemma count_findings_distinct:
  "distinct (map fst pr) \<Longrightarrow> distinct (map fst (count_findings fs pr))"
  by (induction fs arbitrary: pr) (simp_all add: dd_update_distinct)

lemma count_findings_total:
  "total_count (dd_get (count_findings fs pr) r empty_stats) =
     total_count (dd_get pr r empty_stats) + int (length (filter (\<lambda>f. round_number f = r) fs))"
  by (induction fs arbitrary: pr) (auto simp: dd_get_update count_finding_def)

lemma convergence_loop_length: "length (convergence_loop pr rs prev) = length rs"
  by (induction rs arbitrary: prev) (simp_all add: Let_def)

lemma convergence_loop_rounds: "map entry_round (convergence_loop pr rs prev) = rs"
  by (induction rs arbitrary: prev) (simp_all add: Let_def)

lemma convergence_loop_total:
  "e \<in> set (convergence_loop pr rs prev) \<Longrightarrow>
   entry_total e = total_count (dd_get pr (entry_round e) empty_stats)"
  by (induction rs arbitrary: prev) (auto simp: Let_def)

lemma convergence_loop_hd:
  "trend (hd (convergence_loop pr (r # rs) prev)) =
     compute_trend prev (total_count (dd_get pr r empty_stats))"
  by (simp add: Let_def)

lemma convergence_loop_next:
  "Suc i < length (convergence_loop pr rs prev) \<Longrightarrow>
   trend (convergence_loop pr rs prev ! Suc i) =
     compute_trend (Some (entry_total (convergence_loop pr rs prev ! i)))
       (entry_total (convergence_loop pr rs prev ! Suc i))"
proof (induction rs arbitrary: prev i)
  case Nil
  then show ?case by simp
next
  case (Cons r rs)
  let ?tot = "total_count (dd_get pr r empty_stats)"
  have unf: "convergence_loop pr (r # rs) prev ! Suc j = convergence_loop pr rs (Some ?tot) ! j"
    for j by (simp add: Let_def)
  show ?case
  proof (cases i)
    case 0
    from Cons.prems obtain r' rs' where rs: "rs = r' # rs'"
      by (cases rs) (auto simp: Let_def)
    show ?thesis
      unfolding 0 unf by (simp add: rs Let_def)
  next
    case (Suc j)
    from Cons.prems have "Suc j < length (convergence_loop pr rs (Some ?tot))"
      by (simp add: Suc Let_def)
    from Cons.IH [OF this] show ?thesis
      unfolding Suc unf .
  qed
qed

section \<open>Claims about the table locator\<close>

text \<open>
  Claim C8. Every table the locator produces with no header cells has no rows and no
  separator line; the validator gives no error for it, and the aggregator gets no
  finding from it: the findings of a file are the same with and without the table.
\<close>

theorem headerless_table_invariant:
  assumes "t \<in> set (find_disposition_tables lines)" and "header_cells t = []"
  shows "rows t = [] \<and> separator_line t = None \<and> validate_table t = Some [] \<and>
         parse_tables filepath u (pre @ t # post) = parse_tables filepath u (pre @ post)"
proof -
  from assms have "rows t = []" and "separator_line t = None"
    using find_tables_from_props [of t lines 0] by (simp_all add: find_disposition_tables_def)
  moreover from assms(2) have "validate_table t = Some []"
    by (simp add: validate_table_def)
  moreover note parse_tables_skip_headerless [OF assms(2)]
  ultimately show ?thesis by simp
qed

theorem headerless_table_invariant_witness:
  "headerless (Some 2) 0 \<in>
     set (find_disposition_tables [''## Round 2 Review Disposition'', ''## Next Steps'']) \<and>
   header_cells (headerless (Some 2) 0) = [] \<and>
   rows (headerless (Some 2) 0) = [] \<and>
   separator_line (headerless (Some 2) 0) = None \<and>
   validate_table (headerless (Some 2) 0) = Some [] \<and>
   parse_file_findings ''plan.md'' [''## Round 2 Review Disposition'', ''## Next Steps''] = Some []"
proof -
  let ?lines = "[''## Round 2 Review Disposition'', ''## Next Steps'']"
  have tabs: "find_disposition_tables ?lines = [headerless (Some 2) 0]"
    by (simp add: loc_defs re_defs ev_defs)
  have mem: "headerless (Some 2) 0 \<in> set (find_disposition_tables ?lines)"
    by (simp only: tabs list.set insertI1)
  have hc: "header_cells (headerless (Some 2) 0) = []"
    by (simp add: headerless_def)
  from headerless_table_invariant [OF mem hc, of "''plan.md''" 1 "[]" "[]"] mem hc
  show ?thesis by (simp add: parse_file_findings_def tabs)
qed



section \<open>Claims about the validator\<close>

text \<open>
  Claim C5 as stated fails for a table that has neither a severity nor a disposition
  column: the validator reports both missing columns, two errors.
\<close>

theorem validate_table_missing_both_counterexample:
  "find_disposition_tables
     [''## Review Disposition'',
      ''| Finding | Summary |'',
      ''|---|---|'',
      ''| F1 | wrong default |''] =
     [\<lparr>round_num = None, header_line = 1, section_header_line = 0,
       header_cells = [''Finding'', ''Summary''], separator_line = Some 2,
       rows = [\<lparr>line = 3, cells = [''F1'', ''wrong default'']\<rparr>], col_count = 2\<rparr>] \<and>
   find_column_index [''Finding'', ''Summary''] [''disposition''] = None \<and>
   validate_table
     \<lparr>round_num = None, header_line = 1, section_header_line = 0,
      header_cells = [''Finding'', ''Summary''], separator_line = Some 2,
      rows = [\<lparr>line = 3, cells = [''F1'', ''wrong default'']\<rparr>], col_count = 2\<rparr> =
     Some [Missing_Severity Review_Disposition 1 [''Finding'', ''Summary''],
           Missing_Disposition Review_Disposition 1 [''Finding'', ''Summary'']]"
proof -
  have 1: "find_disposition_tables
     [''## Review Disposition'',
      ''| Finding | Summary |'',
      ''|---|---|'',
      ''| F1 | wrong default |''] =
     [\<lparr>round_num = None, header_line = 1, section_header_line = 0,
       header_cells = [''Finding'', ''Summary''], separator_line = Some 2,
       rows = [\<lparr>line = 3, cells = [''F1'', ''wrong default'']\<rparr>], col_count = 2\<rparr>]"
    by (simp add: loc_defs re_defs ev_defs)
  have 2: "find_column_index [''Finding'', ''Summary''] [''disposition''] = None"
    by (simp add: normalize_col_name_def ev_defs)
  have 3: "validate_table
     \<lparr>round_num = None, header_line = 1, section_header_line = 0,
      header_cells = [''Finding'', ''Summary''], separator_line = Some 2,
      rows = [\<lparr>line = 3, cells = [''F1'', ''wrong default'']\<rparr>], col_count = 2\<rparr> =
     Some [Missing_Severity Review_Disposition 1 [''Finding'', ''Summary''],
           Missing_Disposition Review_Disposition 1 [''Finding'', ''Summary'']]"
    by (simp add: validate_table_def round_label_of_def normalize_col_name_def ev_defs)
  from 1 2 3 show ?thesis by (intro conjI)
qed

text \<open>
  Claim C5, as amended. For every table with header cells of which none resolves to
  the disposition role, the validator returns structural errors only: the missing
  severity column first when no header cell resolves to the severity role, then the
  missing disposition column. So there is exactly one error when the severity column
  is present and exactly two when it is not, and the result does not depend on the
  rows: no row is checked.
\<close>

theorem validate_table_missing_disposition:
  assumes "header_cells t \<noteq> []"
    and "find_column_index (header_cells t) [''disposition''] = None"
  shows "validate_table t =
           Some ((if find_column_index (header_cells t) [''severity''] = None
                  then [Missing_Severity (round_label_of t) (section_header_line t + 1)
                          (header_cells t)]
                  else []) @
                 [Missing_Disposition (round_label_of t) (section_header_line t + 1)
                    (header_cells t)]) \<and>
         validate_table (t\<lparr>rows := rs\<rparr>) = validate_table t"
  using assms by (simp add: validate_table_def round_label_of_def Let_def split: option.splits)

theorem validate_table_missing_disposition_witness:
  "header_cells \<lparr>round_num = Some 2, header_line = 1, section_header_line = 0,
       header_cells = [''Finding'', ''Severity''], separator_line = Some 2,
       rows = [\<lparr>line = 3, cells = [''F1'', ''bogus'']\<rparr>, \<lparr>line = 4, cells = [''F2'']\<rparr>],
       col_count = 2\<rparr> \<noteq> [] \<and>
   find_column_index [''Finding'', ''Severity''] [''disposition''] = None \<and>
   validate_table \<lparr>round_num = Some 2, header_line = 1, section_header_line = 0,
       header_cells = [''Finding'', ''Severity''], separator_line = Some 2,
       rows = [\<lparr>line = 3, cells = [''F1'', ''bogus'']\<rparr>, \<lparr>line = 4, cells = [''F2'']\<rparr>],
       col_count = 2\<rparr> =
     Some [Missing_Disposition (Round 2) 1 [''Finding'', ''Severity'']]"
proof -
  let ?t = "\<lparr>round_num = Some 2, header_line = 1, section_header_line = 0,
       header_cells = [''Finding'', ''Severity''], separator_line = Some 2,
       rows = [\<lparr>line = 3, cells = [''F1'', ''bogus'']\<rparr>, \<lparr>line = 4, cells = [''F2'']\<rparr>],
       col_count = 2\<rparr>"
  have h1: "header_cells ?t \<noteq> []" by simp
  have h2: "find_column_index (header_cells ?t) [''disposition''] = None"
    by (simp add: normalize_col_name_def ev_defs)
  have h3: "find_column_index (header_cells ?t) [''severity''] = Some 1"
    by (simp add: normalize_col_name_def ev_defs)
  from validate_table_missing_disposition [OF h1 h2] h1 h2 h3
  show ?thesis by (simp add: round_label_of_def)
qed




section \<open>Claims about the aggregator\<close>

text \<open>
  Claim C3 as stated counts retained tables only. In the code a table with header
  cells moves the counter before its columns are looked up, also when it is then
  skipped for a missing column: in a file whose first table has no severity column,
  the only retained table is the second one, and its finding gets round 2, not 1.
\<close>

theorem unlabeled_round_skipped_table_counterexample:
  "find_disposition_tables
     [''## Review Disposition'',
      ''| Finding |'',
      ''|---|'',
      ''| F1 |'',
      ''## Review Disposition'',
      ''| Severity | Disposition |'',
      ''|---|---|'',
      ''| P1 | Deferred |''] =
     [\<lparr>round_num = None, header_line = 1, section_header_line = 0,
       header_cells = [''Finding''], separator_line = Some 2,
       rows = [\<lparr>line = 3, cells = [''F1'']\<rparr>], col_count = 1\<rparr>,
      \<lparr>round_num = None, header_line = 5, section_header_line = 4,
       header_cells = [''Severity'', ''Disposition''], separator_line = Some 6,
       rows = [\<lparr>line = 7, cells = [''P1'', ''Deferred'']\<rparr>], col_count = 2\<rparr>] \<and>
   map_option (map (\<lambda>f. (round_number f, severity f, disposition f)))
     (parse_file_findings ''plan.md''
        [''## Review Disposition'',
         ''| Finding |'',
         ''|---|'',
         ''| F1 |'',
         ''## Review Disposition'',
         ''| Severity | Disposition |'',
         ''|---|---|'',
         ''| P1 | Deferred |'']) = Some [(2, ''P1'', ''Deferred'')]"
proof -
  let ?lines = "[''## Review Disposition'',
      ''| Finding |'',
      ''|---|'',
      ''| F1 |'',
      ''## Review Disposition'',
      ''| Severity | Disposition |'',
      ''|---|---|'',
      ''| P1 | Deferred |'']"
  have tabs: "find_disposition_tables ?lines =
     [\<lparr>round_num = None, header_line = 1, section_header_line = 0,
       header_cells = [''Finding''], separator_line = Some 2,
       rows = [\<lparr>line = 3, cells = [''F1'']\<rparr>], col_count = 1\<rparr>,
      \<lparr>round_num = None, header_line = 5, section_header_line = 4,
       header_cells = [''Severity'', ''Disposition''], separator_line = Some 6,
       rows = [\<lparr>line = 7, cells = [''P1'', ''Deferred'']\<rparr>], col_count = 2\<rparr>]"
    by (simp add: loc_defs re_defs ev_defs)
  have "map_option (map (\<lambda>f. (round_number f, severity f, disposition f)))
     (parse_file_findings ''plan.md'' ?lines) = Some [(2, ''P1'', ''Deferred'')]"
    unfolding parse_file_findings_def tabs
    by (simp add: table_findings_def table_columns_def normalize_col_name_def
        row_finding_def get_cell_def get_cell_or_def normalize_severity_def
        normalize_disposition_def ev_defs)
  with tabs show ?thesis by (rule conjI)
qed

text \<open>
  Claim C3, as amended. A table of a file that has header cells and no round number,
  retained or skipped for a missing column, gets the running maximum as its round
  number, and all its findings carry it: the loop goes through the tables before it,
  gives the table the value \<open>unlabeled_round_after\<close> of those tables, and goes on with
  that value plus one. The running maximum starts at the initial value (1 for a file)
  and is never below it; it is greater than the round number of every earlier table
  with header cells, labeled or not, and it is the initial value or one more than the
  round number of such a table. So tables without a label get strictly increasing
  round numbers in document order, whatever labeled tables stand between them.
\<close>

theorem unlabeled_table_round:
  assumes "header_cells t \<noteq> []" and "round_num t = None"
  shows
    "parse_tables filepath u (pre @ t # post) =
       (case parse_tables filepath u pre of
          None \<Rightarrow> None
        | Some fs1 \<Rightarrow>
            (case table_findings filepath (unlabeled_round_after u pre) t of
               None \<Rightarrow> None
             | Some fs2 \<Rightarrow>
                 map_option (\<lambda>fs3. fs1 @ fs2 @ fs3)
                   (parse_tables filepath (unlabeled_round_after u pre + 1) post)))
     \<and> (\<forall>fs2. table_findings filepath (unlabeled_round_after u pre) t = Some fs2 \<longrightarrow>
              (\<forall>f \<in> set fs2. round_number f = unlabeled_round_after u pre))
     \<and> u \<le> unlabeled_round_after u pre
     \<and> (\<forall>p1 t' p2. pre = p1 @ t' # p2 \<and> header_cells t' \<noteq> [] \<longrightarrow>
                    assigned_round u p1 t' < unlabeled_round_after u pre)
     \<and> (unlabeled_round_after u pre = u \<or>
         (\<exists>p1 t' p2. pre = p1 @ t' # p2 \<and> header_cells t' \<noteq> [] \<and>
                      unlabeled_round_after u pre = assigned_round u p1 t' + 1))
     \<and> (\<forall>p1 t' p2. pre = p1 @ t' # p2 \<and> header_cells t' \<noteq> [] \<and> round_num t' = None \<longrightarrow>
                    unlabeled_round_after u p1 < unlabeled_round_after u pre)"
proof -
  let ?v = "unlabeled_round_after u pre"
  have one: "parse_tables filepath ?v (t # post) =
      (case table_findings filepath ?v t of
         None \<Rightarrow> None
       | Some fs2 \<Rightarrow> map_option ((@) fs2) (parse_tables filepath (?v + 1) post))"
    using assms by (simp add: Let_def split: option.splits)
  have 1: "parse_tables filepath u (pre @ t # post) =
       (case parse_tables filepath u pre of
          None \<Rightarrow> None
        | Some fs1 \<Rightarrow>
            (case table_findings filepath ?v t of
               None \<Rightarrow> None
             | Some fs2 \<Rightarrow>
                 map_option (\<lambda>fs3. fs1 @ fs2 @ fs3) (parse_tables filepath (?v + 1) post)))"
    unfolding parse_tables_append one
    by (cases "parse_tables filepath (?v + 1) post")
       (simp_all split: option.splits)
  have 2: "\<forall>fs2. table_findings filepath ?v t = Some fs2 \<longrightarrow>
              (\<forall>f \<in> set fs2. round_number f = ?v)"
    using table_findings_round by blast
  have 3: "u \<le> ?v" by (rule unlabeled_round_after_ge)
  have 4: "\<forall>p1 t' p2. pre = p1 @ t' # p2 \<and> header_cells t' \<noteq> [] \<longrightarrow>
                    assigned_round u p1 t' < ?v"
    using assigned_round_less by blast
  have 5: "?v = u \<or>
         (\<exists>p1 t' p2. pre = p1 @ t' # p2 \<and> header_cells t' \<noteq> [] \<and>
                      ?v = assigned_round u p1 t' + 1)"
    by (rule unlabeled_round_after_attained)
  have 6: "\<forall>p1 t' p2. pre = p1 @ t' # p2 \<and> header_cells t' \<noteq> [] \<and> round_num t' = None \<longrightarrow>
                    unlabeled_round_after u p1 < ?v"
  proof (intro allI impI)
    fix p1 t' p2
    assume a: "pre = p1 @ t' # p2 \<and> header_cells t' \<noteq> [] \<and> round_num t' = None"
    then have "assigned_round u p1 t' < ?v" using assigned_round_less by blast
    with a show "unlabeled_round_after u p1 < ?v" by (simp add: assigned_round_def)
  qed
  from 1 2 3 4 5 6 show ?thesis by (intro conjI)
qed

theorem unlabeled_table_round_witness:
  "header_cells \<lparr>round_num = None, header_line = 6, section_header_line = 5,
       header_cells = [''Severity'', ''Disposition''], separator_line = Some 7,
       rows = [\<lparr>line = 8, cells = [''P2'', ''Incorporated'']\<rparr>], col_count = 2\<rparr> \<noteq> [] \<and>
   unlabeled_round_after 1
     [\<lparr>round_num = Some 5, header_line = 1, section_header_line = 0,
       header_cells = [''Severity'', ''Disposition''], separator_line = Some 2,
       rows = [\<lparr>line = 3, cells = [''P1'', ''Deferred'']\<rparr>], col_count = 2\<rparr>] = 6 \<and>
   map_option (map round_number)
     (parse_tables ''plan.md'' 1
        [\<lparr>round_num = Some 5, header_line = 1, section_header_line = 0,
          header_cells = [''Severity'', ''Disposition''], separator_line = Some 2,
          rows = [\<lparr>line = 3, cells = [''P1'', ''Deferred'']\<rparr>], col_count = 2\<rparr>,
         \<lparr>round_num = None, header_line = 6, section_header_line = 5,
          header_cells = [''Severity'', ''Disposition''], separator_line = Some 7,
          rows = [\<lparr>line = 8, cells = [''P2'', ''Incorporated'']\<rparr>], col_count = 2\<rparr>,
         \<lparr>round_num = None, header_line = 6, section_header_line = 5,
          header_cells = [''Severity'', ''Disposition''], separator_line = Some 7,
          rows = [\<lparr>line = 8, cells = [''P2'', ''Incorporated'']\<rparr>], col_count = 2\<rparr>]) =
     Some [5, 6, 7]"
proof -
  let ?t5 = "\<lparr>round_num = Some 5, header_line = 1, section_header_line = 0,
       header_cells = [''Severity'', ''Disposition''], separator_line = Some 2,
       rows = [\<lparr>line = 3, cells = [''P1'', ''Deferred'']\<rparr>], col_count = 2\<rparr>"
  let ?t = "\<lparr>round_num = None, header_line = 6, section_header_line = 5,
       header_cells = [''Severity'', ''Disposition''], separator_line = Some 7,
       rows = [\<lparr>line = 8, cells = [''P2'', ''Incorporated'']\<rparr>], col_count = 2\<rparr>"
  have h1: "header_cells ?t \<noteq> []" by simp
  have h2: "round_num ?t = None" by simp
  have ua: "unlabeled_round_after 1 [?t5] = 6"
    by (simp add: next_unlabeled_round_def)
  have pre: "map_option (map round_number) (parse_tables ''plan.md'' 1 [?t5]) = Some [5]"
    by (simp add: table_findings_def table_columns_def normalize_col_name_def ev_defs
        row_finding_def get_cell_def get_cell_or_def)
  have mid: "map_option (map round_number) (table_findings ''plan.md'' 6 ?t) = Some [6]"
    by (simp add: table_findings_def table_columns_def normalize_col_name_def ev_defs
        row_finding_def get_cell_def get_cell_or_def)
  have post: "map_option (map round_number) (parse_tables ''plan.md'' (6 + 1) [?t]) = Some [7]"
    by (simp add: table_findings_def table_columns_def normalize_col_name_def ev_defs
        row_finding_def get_cell_def get_cell_or_def)
  from unlabeled_table_round [OF h1 h2, of "''plan.md''" 1 "[?t5]" "[?t]"]
  have eq: "parse_tables ''plan.md'' 1 ([?t5] @ ?t # [?t]) =
       (case parse_tables ''plan.md'' 1 [?t5] of
          None \<Rightarrow> None
        | Some fs1 \<Rightarrow>
            (case table_findings ''plan.md'' (unlabeled_round_after 1 [?t5]) ?t of
               None \<Rightarrow> None
             | Some fs2 \<Rightarrow>
                 map_option (\<lambda>fs3. fs1 @ fs2 @ fs3)
                   (parse_tables ''plan.md'' (unlabeled_round_after 1 [?t5] + 1) [?t])))"
    by blast
  obtain f1 where f1: "parse_tables ''plan.md'' 1 [?t5] = Some f1" "map round_number f1 = [5]"
    using pre by (auto simp: map_option_eq_Some split: option.splits)
  obtain f2 where f2: "table_findings ''plan.md'' 6 ?t = Some f2" "map round_number f2 = [6]"
    using mid by (auto simp: map_option_eq_Some split: option.splits)
  obtain f3 where f3: "parse_tables ''plan.md'' (6 + 1) [?t] = Some f3" "map round_number f3 = [7]"
    using post by (auto simp: map_option_eq_Some split: option.splits)
  have "map_option (map round_number) (parse_tables ''plan.md'' 1 ([?t5] @ ?t # [?t])) =
      Some [5, 6, 7]"
    unfolding eq ua by (simp only: f1 f2 f3 option.case option.map map_append) simp
  with h1 ua show ?thesis by simp
qed

text \<open>
  Claim C1. The convergence series has one entry for each observed round number, in
  ascending order, with the number of findings of that round as its total. The first
  entry has no trend. Every later entry compares its total \<open>t\<close> with the total \<open>p\<close> of
  the entry before it, which is positive: with \<open>pct = (t - p) / p * 100\<close> the trend is
  down by \<open>|pct|\<close> when \<open>pct \<le> 0\<close> and up by \<open>pct\<close> otherwise. In the loop a
  previous total that is absent or not positive gives no trend. The percentage is the
  exact quotient; the rounding of the float and of its rendering is not modelled.
\<close>

theorem convergence_series:
  "map entry_round (convergence (aggregate_findings fs)) =
     sorted_list_of_set (round_number ` set fs)
   \<and> (\<forall>e \<in> set (convergence (aggregate_findings fs)).
         entry_total e = int (length (filter (\<lambda>f. round_number f = entry_round e) fs)))
   \<and> (convergence (aggregate_findings fs) \<noteq> [] \<longrightarrow>
         trend (hd (convergence (aggregate_findings fs))) = No_Trend)
   \<and> (\<forall>i. Suc i < length (convergence (aggregate_findings fs)) \<longrightarrow>
         0 < entry_total (convergence (aggregate_findings fs) ! i) \<and>
         trend (convergence (aggregate_findings fs) ! Suc i) =
           (let t = entry_total (convergence (aggregate_findings fs) ! Suc i);
                p = entry_total (convergence (aggregate_findings fs) ! i);
                pct = (of_int (t - p) / of_int p) * 100
            in if pct \<le> 0 then Down \<bar>pct\<bar> else Up pct))
   \<and> (\<forall>p. p \<le> 0 \<longrightarrow>
         trend (hd (convergence_loop stats (rnd # rnds) (Some p))) = No_Trend)
   \<and> trend (hd (convergence_loop stats (rnd # rnds) None)) = No_Trend"
proof -
  let ?pr = "count_findings fs []"
  let ?rs = "sort (map fst ?pr)"
  let ?conv = "convergence (aggregate_findings fs)"
  have conv: "?conv = convergence_loop ?pr ?rs None"
    by (simp add: aggregate_findings_def Let_def)
  have keys: "fst ` set ?pr = round_number ` set fs"
    using count_findings_keys [of fs "[]"] by simp
  have dist: "distinct (map fst ?pr)"
    by (rule count_findings_distinct) simp
  have 1: "map entry_round ?conv = sorted_list_of_set (round_number ` set fs)"
  proof -
    have "?rs = sorted_list_of_set (round_number ` set fs)"
    proof (rule sorted_distinct_set_unique)
      show "sorted ?rs" by simp
      show "distinct ?rs" using dist by simp
      show "sorted (sorted_list_of_set (round_number ` set fs))" by simp
      show "distinct (sorted_list_of_set (round_number ` set fs))" by simp
      show "set ?rs = set (sorted_list_of_set (round_number ` set fs))"
        using keys by simp
    qed
    then show ?thesis by (simp only: conv convergence_loop_rounds)
  qed
  have tot: "entry_total e = int (length (filter (\<lambda>f. round_number f = entry_round e) fs))"
    if "e \<in> set ?conv" for e
    using convergence_loop_total [OF that [unfolded conv]]
      count_findings_total [of fs "[]" "entry_round e"]
    by (simp add: dd_get_def empty_stats_def)
  have 3: "?conv \<noteq> [] \<longrightarrow> trend (hd ?conv) = No_Trend"
  proof
    assume "?conv \<noteq> []"
    then obtain r rs where rs: "?rs = r # rs"
      unfolding conv by (cases ?rs) auto
    show "trend (hd ?conv) = No_Trend"
      unfolding conv rs convergence_loop_hd by (simp add: compute_trend_def)
  qed
  have 4: "0 < entry_total (?conv ! i) \<and>
         trend (?conv ! Suc i) =
           (let t = entry_total (?conv ! Suc i);
                p = entry_total (?conv ! i);
                pct = (of_int (t - p) / of_int p) * 100
            in if pct \<le> 0 then Down \<bar>pct\<bar> else Up pct)"
    if lt: "Suc i < length ?conv" for i
  proof -
    let ?e = "?conv ! i"
    from lt have mem: "?e \<in> set ?conv" by simp
    then have "entry_round ?e \<in> set (map entry_round ?conv)" by auto
    then have "entry_round ?e \<in> round_number ` set fs"
      unfolding 1 by simp
    then obtain f where "f \<in> set fs" "round_number f = entry_round ?e" by auto
    then have "filter (\<lambda>f. round_number f = entry_round ?e) fs \<noteq> []"
      by (auto simp: filter_empty_conv)
    with tot [OF mem] have pos: "0 < entry_total ?e" by simp
    from convergence_loop_next [OF lt [unfolded conv]] pos
    show ?thesis by (simp add: conv compute_trend_def Let_def)
  qed
  have 5: "\<forall>p. p \<le> 0 \<longrightarrow>
         trend (hd (convergence_loop stats (rnd # rnds) (Some p))) = No_Trend"
    by (simp add: Let_def compute_trend_def)
  have 6: "trend (hd (convergence_loop stats (rnd # rnds) None)) = No_Trend"
    by (simp add: Let_def compute_trend_def)
  from 1 tot 3 4 5 6 show ?thesis by blast
qed

theorem convergence_series_witness:
  "map (\<lambda>e. (entry_round e, entry_total e, trend e))
     (convergence (aggregate_findings
        (replicate 4 \<lparr>file_path = ''a.md'', round_number = 2, finding_id = ''F'', reviewer = None,
                       severity = ''P1'', severity_raw = ''High'', summary = [],
                       disposition = ''Incorporated'', disposition_raw = ''Incorporated'',
                       notes_text = []\<rparr> @
         replicate 10 \<lparr>file_path = ''b.md'', round_number = 1, finding_id = ''G'', reviewer = None,
                        severity = ''P2'', severity_raw = ''P2'', summary = [],
                        disposition = ''Deferred'', disposition_raw = ''Deferred'',
                        notes_text = []\<rparr>))) =
   [(1, 10, No_Trend), (2, 4, Down 60)]"
proof -
  let ?fs = "replicate 4 \<lparr>file_path = ''a.md'', round_number = 2, finding_id = ''F'', reviewer = None,
                       severity = ''P1'', severity_raw = ''High'', summary = [],
                       disposition = ''Incorporated'', disposition_raw = ''Incorporated'',
                       notes_text = []\<rparr> @
         replicate 10 \<lparr>file_path = ''b.md'', round_number = 1, finding_id = ''G'', reviewer = None,
                        severity = ''P2'', severity_raw = ''P2'', summary = [],
                        disposition = ''Deferred'', disposition_raw = ''Deferred'',
                        notes_text = []\<rparr>"
  let ?c = "convergence (aggregate_findings ?fs)"
  have ev: "map (\<lambda>e. (entry_round e, entry_total e)) ?c = [(1, 10), (2, 4)]"
    by (simp add: agg_defs numeral_eq_Suc sort_key_def insort_key.simps)
  then obtain e1 e2 where c: "?c = [e1, e2]"
    and e1: "entry_round e1 = 1" "entry_total e1 = 10"
    and e2: "entry_round e2 = 2" "entry_total e2 = 4"
    by (auto simp: map_eq_Cons_conv)
  note series = convergence_series [of ?fs]
  from series have "?c \<noteq> [] \<longrightarrow> trend (hd ?c) = No_Trend" by blast
  with c have t1: "trend e1 = No_Trend" by simp
  from series have "Suc 0 < length ?c \<longrightarrow>
         0 < entry_total (?c ! 0) \<and>
         trend (?c ! Suc 0) =
           (let t = entry_total (?c ! Suc 0);
                p = entry_total (?c ! 0);
                pct = (of_int (t - p) / of_int p) * 100
            in if pct \<le> 0 then Down \<bar>pct\<bar> else Up pct)" by blast
  then have t2: "trend e2 = Down 60"
    unfolding c by (simp add: e1 e2 Let_def)
  show ?thesis unfolding c by (simp add: e1 e2 t1 t2)
qed

end
